theory Spec2Isabelle
  imports Main "HOL-Library.AList"
begin

section \<open>Values, objects and the heap\<close>

text \<open>
  The store of \<^verbatim>\<open>src/index.ts\<close> holds arbitrary JavaScript values and mutates nested
  objects in place, so objects live in an explicit heap and are referred to by address.
  An object is a plain data object or an array: extensible, its properties writable
  data properties, kept as the list of own properties in insertion order, with a flag
  for arrays (whose elements are the properties named by their indices, and whose
  length is one more than the largest index). Frozen objects, accessors and proxies
  are outside the model, and so are the properties that objects inherit from the
  host's prototypes (\<^verbatim>\<open>toString\<close>, \<^verbatim>\<open>constructor\<close>, ...): the names are listed below, and
  what is proved about reading and writing along a path is stated for paths that do
  not use them. A callback is identified by a number, standing for the identity of the
  function object.
\<close>

type_synonym addr = nat
type_synonym callback = nat

datatype jsval = VUndef | VNull | VBool bool | VNum int | VStr string | VRef addr

datatype jsobj = JSObj (is_array: bool) (props: "(string \<times> jsval) list")

type_synonym heap = "jsobj list"

text \<open>
  How a call can end other than by returning: a TypeError of the program; an address
  outside the heap, which no JavaScript value has; an assignment whose effect in the
  host is outside the model (the \<^verbatim>\<open>length\<close> of an array, \<^verbatim>\<open>__proto__\<close>).
\<close>

datatype error = TypeError | BadRef | Unmodelled

text \<open>A key of the map or a segment of a path: a string or an array index.\<close>

datatype seg = SStr string | SNum nat

text \<open>A bare key, or a path: an array with at least one segment.\<close>

datatype pathkey = Key seg | Path seg "seg list"

definition digit :: "nat \<Rightarrow> char" where
  "digit n = ''0123456789'' ! (n mod 10)"

fun string_of_nat :: "nat \<Rightarrow> string" where
  "string_of_nat n =
     (if n < 10 then [digit n] else string_of_nat (n div 10) @ [digit n])"

declare string_of_nat.simps [simp del]

text \<open>\<^verbatim>\<open>String(x)\<close> for a key or segment.\<close>

fun seg_str :: "seg \<Rightarrow> string" where
  "seg_str (SStr s) = s"
| "seg_str (SNum n) = string_of_nat n"

text \<open>\<^verbatim>\<open>Array.isArray(path) ? path : [path]\<close>\<close>

fun pathArray :: "pathkey \<Rightarrow> seg list" where
  "pathArray (Key k) = [k]"
| "pathArray (Path k ks) = k # ks"

section \<open>JavaScript sets and maps\<close>

text \<open>
  A \<^verbatim>\<open>Set\<close> is a duplicate-free list in insertion order; a \<^verbatim>\<open>Map\<close> is an association
  list in insertion order (\<^const>\<open>AList.update\<close> overwrites in place or appends,
  \<^const>\<open>AList.delete\<close> removes).
\<close>

definition set_add :: "'a \<Rightarrow> 'a list \<Rightarrow> 'a list" where
  "set_add x xs = (if x \<in> set xs then xs else xs @ [x])"

definition set_delete :: "'a \<Rightarrow> 'a list \<Rightarrow> 'a list" where
  "set_delete x xs = removeAll x xs"

definition add_all :: "'a list \<Rightarrow> 'a list \<Rightarrow> 'a list" where
  "add_all cbs batch = fold set_add cbs batch"

definition map_has :: "('k \<times> 'v) list \<Rightarrow> 'k \<Rightarrow> bool" where
  "map_has m k = (map_of m k \<noteq> None)"

text \<open>\<^verbatim>\<open>Map.get\<close> on the value map: \<^verbatim>\<open>undefined\<close> for a missing key.\<close>

definition map_get :: "('k \<times> jsval) list \<Rightarrow> 'k \<Rightarrow> jsval" where
  "map_get m k = (case map_of m k of None \<Rightarrow> VUndef | Some v \<Rightarrow> v)"

definition startsWith :: "string \<Rightarrow> string \<Rightarrow> bool" where
  "startsWith s p = (take (length p) s = p)"

section \<open>The store\<close>

datatype store_type = TMap | TObject

text \<open>
  What the store does to the outside is kept as a trace: each call of a sync function
  with the batch it hands to \<^verbatim>\<open>batchedUpdate\<close> (which invokes every callback of a
  non-empty batch once, in order, inside one transition), each message to the DevTools
  instance, and each \<^verbatim>\<open>console.error\<close>. The callbacks are the listeners that the
  binding layer registers to schedule a re-render: they are taken not to call back
  into the store while a method runs.
\<close>

datatype channel = ChItem pathkey | ChItems "pathkey list" | ChMap | ChSize | ChKeys

datatype event =
    Sync channel "callback list"
  | DevtoolsInit "(seg \<times> jsval) list"
  | DevtoolsSend string "(seg \<times> jsval) list"
  | ConsoleError

record store =
  smap :: "(seg \<times> jsval) list"
  itemSubscribers :: "(string \<times> callback list) list"
  sizeSubscribers :: "callback list"
  keysSubscribers :: "callback list"
  fallbackValue :: jsval
  devtools :: bool
  stype :: store_type
  initialState :: "(seg \<times> jsval) list"
  pathCache :: "(pathkey \<times> string list) list"
  nestedFallbackValueCache :: "(string \<times> jsval) list"
  itemSubscriberPaths :: "string list"
  devtoolsStateCache :: "(seg \<times> jsval) list"
  heap :: heap
  trace :: "event list"

subsection \<open>Path canonicalizer\<close>

fun pathToString_loop :: "nat \<Rightarrow> seg list \<Rightarrow> string \<Rightarrow> string" where
  "pathToString_loop i [] result = result"
| "pathToString_loop i (x # xs) result =
     pathToString_loop (Suc i) xs ((if i > 0 then result @ ''.'' else result) @ seg_str x)"

fun pathToString :: "pathkey \<Rightarrow> string" where
  "pathToString (Path k ks) = pathToString_loop 0 (k # ks) []"
| "pathToString (Key k) = seg_str k"

text \<open>
  \<^verbatim>\<open>pathToStringArray\<close> memoizes on the path. The cache of the source is keyed by the
  identity of the path array; here a path is a value and the cache is keyed by it.
\<close>

definition pathToStringArray :: "pathkey \<Rightarrow> store \<Rightarrow> string list \<times> store" where
  "pathToStringArray path s =
     (case map_of (pathCache s) path of
        Some cached \<Rightarrow> (cached, s)
      | None \<Rightarrow>
          (let result = (case path of Path k ks \<Rightarrow> map seg_str (k # ks)
                                    | Key k \<Rightarrow> [seg_str k])
           in (result, s\<lparr>pathCache := AList.update path result (pathCache s)\<rparr>)))"

subsection \<open>Subscription registry\<close>

definition addSubscriber :: "pathkey \<Rightarrow> callback \<Rightarrow> store \<Rightarrow> store" where
  "addSubscriber path callback s =
     (let pathString = pathToString path;
          s1 = (if \<not> map_has (itemSubscribers s) pathString
                then s\<lparr>itemSubscribers := AList.update pathString [] (itemSubscribers s),
                       itemSubscriberPaths := set_add pathString (itemSubscriberPaths s)\<rparr>
                else s)
      in s1\<lparr>itemSubscribers :=
               AList.update pathString
                 (set_add callback (the (map_of (itemSubscribers s1) pathString)))
                 (itemSubscribers s1)\<rparr>)"

definition removeSubscriber :: "pathkey \<Rightarrow> callback \<Rightarrow> store \<Rightarrow> store" where
  "removeSubscriber path callback s =
     (let pathString = pathToString path
      in case map_of (itemSubscribers s) pathString of
           None \<Rightarrow> s
         | Some subscribers \<Rightarrow>
             (let subscribers' = set_delete callback subscribers
              in if length subscribers' = 0
                 then s\<lparr>itemSubscribers := AList.delete pathString (itemSubscribers s),
                        itemSubscriberPaths := set_delete pathString (itemSubscriberPaths s)\<rparr>
                 else s\<lparr>itemSubscribers :=
                          AList.update pathString subscribers' (itemSubscribers s)\<rparr>))"

subsection \<open>Notification scheduler\<close>

definition syncKeys :: "store \<Rightarrow> store" where
  "syncKeys s = s\<lparr>trace := trace s @ [Sync ChKeys (keysSubscribers s)]\<rparr>"

definition syncSize :: "store \<Rightarrow> store" where
  "syncSize s = s\<lparr>trace := trace s @ [Sync ChSize (sizeSubscribers s)]\<rparr>"

text \<open>The first loop of \<^verbatim>\<open>syncItem\<close> and the inner loop of \<^verbatim>\<open>syncItems\<close>.\<close>

fun sub_loop ::
  "(string \<times> callback list) list \<Rightarrow> string \<Rightarrow> string list \<Rightarrow> callback list \<Rightarrow> callback list"
where
  "sub_loop subs fullPath [] batch = batch"
| "sub_loop subs fullPath (subPath # rest) batch =
     sub_loop subs fullPath rest
       (if subPath = fullPath \<or> startsWith subPath (fullPath @ ''.'')
        then (case map_of subs subPath of
                Some callbacks \<Rightarrow> add_all callbacks batch
              | None \<Rightarrow> batch)
        else batch)"

text \<open>The second loop of \<^verbatim>\<open>syncItem\<close>, over the segments of the path.\<close>

fun parent_loop ::
  "(string \<times> callback list) list \<Rightarrow> string list \<Rightarrow> string \<Rightarrow> callback list \<Rightarrow> callback list"
where
  "parent_loop subs [] currentPath batch = batch"
| "parent_loop subs (segment # rest) currentPath batch =
     (let currentPath' = currentPath @ (if currentPath \<noteq> [] then ''.'' else []) @ segment
      in parent_loop subs rest currentPath'
           (case map_of subs currentPath' of
              Some parentCallbacks \<Rightarrow> add_all parentCallbacks batch
            | None \<Rightarrow> batch))"

definition syncItem :: "pathkey \<Rightarrow> store \<Rightarrow> store" where
  "syncItem key s =
     (let fullPath = pathToString key;
          batch = sub_loop (itemSubscribers s) fullPath (itemSubscriberPaths s) [];
          (pathArr, s1) = pathToStringArray key s;
          batch' = parent_loop (itemSubscribers s1) pathArr [] batch
      in s1\<lparr>trace := trace s1 @ [Sync (ChItem key) batch']\<rparr>)"

fun syncItems_loop ::
  "(string \<times> callback list) list \<Rightarrow> string list \<Rightarrow> pathkey list \<Rightarrow> callback list \<Rightarrow> callback list"
where
  "syncItems_loop subs paths [] batch = batch"
| "syncItems_loop subs paths (key # keys) batch =
     syncItems_loop subs paths keys (sub_loop subs (pathToString key) paths batch)"

definition syncItems :: "pathkey list \<Rightarrow> store \<Rightarrow> store" where
  "syncItems keys s =
     s\<lparr>trace := trace s @
        [Sync (ChItems keys)
           (syncItems_loop (itemSubscribers s) (itemSubscriberPaths s) keys [])]\<rparr>"

definition syncMap :: "store \<Rightarrow> store" where
  "syncMap s =
     s\<lparr>trace := trace s @
        [Sync ChMap (fold add_all (map snd (itemSubscribers s)) [])]\<rparr>"

subsection \<open>Debug mirror, outbound\<close>

definition sendToDevtools :: "string \<Rightarrow> bool \<Rightarrow> store \<Rightarrow> store" where
  "sendToDevtools action skip s =
     (if skip \<or> \<not> devtools s then s
      else (let cache = fold (\<lambda>(key, v). AList.update key v) (smap s) []
            in s\<lparr>devtoolsStateCache := cache,
                 trace := trace s @ [DevtoolsSend action cache]\<rparr>))"

subsection \<open>Replacing the whole map\<close>

definition setMap :: "(seg \<times> jsval) list \<Rightarrow> bool \<Rightarrow> bool \<Rightarrow> store \<Rightarrow> store" where
  "setMap m notify skipSnapshot s =
     (let s1 = sendToDevtools ''SET_MAP'' skipSnapshot (s\<lparr>smap := m\<rparr>)
      in if notify
         then syncKeys (syncSize (syncMap
                (s1\<lparr>itemSubscribers := [], itemSubscriberPaths := [],
                    sizeSubscribers := [], keysSubscribers := []\<rparr>)))
         else s1)"

section \<open>Value store\<close>

subsection \<open>Property access\<close>

fun truthy :: "jsval \<Rightarrow> bool" where
  "truthy VUndef = False"
| "truthy VNull = False"
| "truthy (VBool b) = b"
| "truthy (VNum n) = (n \<noteq> 0)"
| "truthy (VStr s) = (s \<noteq> [])"
| "truthy (VRef a) = True"

text \<open>\<^verbatim>\<open>v === undefined || v === null\<close>\<close>

fun nullish :: "jsval \<Rightarrow> bool" where
  "nullish VUndef = True"
| "nullish VNull = True"
| "nullish v = False"

text \<open>
  The property names that are array indices: the decimal numerals without leading
  zeros below \<open>2\<^sup>3\<^sup>2 - 1\<close>. The length of an array is one more than its largest index.
\<close>

definition digit_value :: "char \<Rightarrow> nat" where
  "digit_value c = of_char c - 48"

definition nat_of_digits :: "string \<Rightarrow> nat" where
  "nat_of_digits k = fold (\<lambda>c n. 10 * n + digit_value c) k 0"

definition index_of_key :: "string \<Rightarrow> nat option" where
  "index_of_key k =
     (if k \<noteq> [] \<and> list_all (\<lambda>c. c \<in> set ''0123456789'') k
         \<and> string_of_nat (nat_of_digits k) = k
         \<and> int (nat_of_digits k) < 4294967295
      then Some (nat_of_digits k) else None)"

definition array_length :: "(string \<times> jsval) list \<Rightarrow> nat" where
  "array_length ps =
     fold (\<lambda>(k, v) n. case index_of_key k of Some i \<Rightarrow> max n (Suc i) | None \<Rightarrow> n) ps 0"

text \<open>
  \<^verbatim>\<open>v[k]\<close> for a value that is neither \<^verbatim>\<open>undefined\<close> nor \<^verbatim>\<open>null\<close> (every
  caller checks that first, or throws): the length of an array or of a string, an
  own property of an object, a character of a string, \<^verbatim>\<open>undefined\<close> otherwise. For a
  name of \<open>host_property_names\<close> below that is not an own property the host gives
  the inherited value, which the model does not have.
\<close>

fun prop_get :: "heap \<Rightarrow> jsval \<Rightarrow> string \<Rightarrow> jsval" where
  "prop_get h (VRef a) k =
     (if a < length h
      then (if is_array (h ! a) \<and> k = ''length''
            then VNum (int (array_length (props (h ! a))))
            else (case map_of (props (h ! a)) k of None \<Rightarrow> VUndef | Some x \<Rightarrow> x))
      else VUndef)"
| "prop_get h (VStr s) k =
     (if k = ''length'' then VNum (int (length s))
      else (case find (\<lambda>i. string_of_nat i = k) [0..<length s] of
              Some i \<Rightarrow> VStr [s ! i]
            | None \<Rightarrow> VUndef))"
| "prop_get h v k = VUndef"

text \<open>
  \<^verbatim>\<open>v[k] = x\<close>. The file is an ES module, hence strict code: assigning a property of
  a primitive throws a TypeError, as it does for \<^verbatim>\<open>undefined\<close> and \<^verbatim>\<open>null\<close>.
  Assigning \<^verbatim>\<open>__proto__\<close>, or the \<^verbatim>\<open>length\<close> of an array, does not store the value as a
  property (the host changes the prototype or ignores the value; it converts the
  length to a number and resizes the array, or throws a RangeError): the model does
  not follow these and says so. Any other assignment on an object sets an own
  property; on an array, an index beyond the length thereby extends the array.
\<close>

fun prop_write :: "heap \<Rightarrow> jsval \<Rightarrow> string \<Rightarrow> jsval \<Rightarrow> error + heap" where
  "prop_write h (VRef a) k x =
     (if a < length h
      then (if k = ''__proto__'' \<or> (is_array (h ! a) \<and> k = ''length'')
            then Inl Unmodelled
            else Inr (h[a := JSObj (is_array (h ! a)) (AList.update k x (props (h ! a)))]))
      else Inl BadRef)"
| "prop_write h v k x = Inl TypeError"



text \<open>The own enumerable properties that \<^verbatim>\<open>{...v}\<close> and \<^verbatim>\<open>Object.entries(v)\<close> see.\<close>

fun spread :: "heap \<Rightarrow> jsval \<Rightarrow> (string \<times> jsval) list" where
  "spread h (VRef a) = (if a < length h then props (h ! a) else [])"
| "spread h (VStr s) = zip (map string_of_nat [0..<length s]) (map (\<lambda>c. VStr [c]) s)"
| "spread h v = []"

definition merge_props ::
  "(string \<times> jsval) list \<Rightarrow> (string \<times> jsval) list \<Rightarrow> (string \<times> jsval) list" where
  "merge_props ps qs = fold (\<lambda>(k, v). AList.update k v) qs ps"

text \<open>\<^verbatim>\<open>typeof item === 'object' && item !== null && !Array.isArray(item)\<close>\<close>

fun is_plain_object :: "heap \<Rightarrow> jsval \<Rightarrow> bool" where
  "is_plain_object h (VRef a) = (a < length h \<and> \<not> is_array (h ! a))"
| "is_plain_object h v = False"

subsection \<open>Fallback values\<close>

definition getFallbackValue :: "seg \<Rightarrow> store \<Rightarrow> jsval" where
  "getFallbackValue key s =
     (if stype s = TObject \<and> truthy (fallbackValue s)
      then (let v = prop_get (heap s) (fallbackValue s) (seg_str key)
            in if nullish v then fallbackValue s else v)
      else fallbackValue s)"

text \<open>
  The loop of \<^verbatim>\<open>getNestedFallbackValue\<close>, from index 1; \<^const>\<open>None\<close> is its early
  return. Its two branches, for an array with a numeric segment and for the rest, are
  the same property read.
\<close>

fun nested_fallback_loop :: "heap \<Rightarrow> jsval \<Rightarrow> seg list \<Rightarrow> jsval option" where
  "nested_fallback_loop h fv [] = Some fv"
| "nested_fallback_loop h fv (k # ks) =
     (if nullish fv then None
      else nested_fallback_loop h (prop_get h fv (seg_str k)) ks)"

definition getNestedFallbackValue :: "pathkey \<Rightarrow> store \<Rightarrow> jsval \<times> store" where
  "getNestedFallbackValue path s =
     (let pathString = pathToString path
      in if map_has (nestedFallbackValueCache s) pathString
         then (map_get (nestedFallbackValueCache s) pathString, s)
         else if stype s \<noteq> TObject \<or> \<not> truthy (fallbackValue s) then (VUndef, s)
         else (case nested_fallback_loop (heap s) (fallbackValue s) (tl (pathArray path)) of
                 None \<Rightarrow> (VUndef, s)
               | Some result \<Rightarrow>
                   (result,
                    s\<lparr>nestedFallbackValueCache :=
                        AList.update pathString result (nestedFallbackValueCache s)\<rparr>)))"

subsection \<open>Reading\<close>

text \<open>The loop of \<^verbatim>\<open>getScoped\<close>, from index 1; \<^const>\<open>None\<close> is its early return.\<close>

fun getScoped_loop :: "heap \<Rightarrow> jsval \<Rightarrow> seg list \<Rightarrow> jsval option" where
  "getScoped_loop h v [] = Some v"
| "getScoped_loop h v (k # ks) =
     (if nullish v then None
      else getScoped_loop h (prop_get h v (seg_str k)) ks)"

definition getScoped :: "pathkey \<Rightarrow> store \<Rightarrow> jsval \<times> store" where
  "getScoped path s =
     (let v = map_get (smap s) (hd (pathArray path))
      in if v = VUndef then getNestedFallbackValue path s
         else (case getScoped_loop (heap s) v (tl (pathArray path)) of
                 None \<Rightarrow> getNestedFallbackValue path s
               | Some v' \<Rightarrow> if v' \<noteq> VUndef then (v', s) else getNestedFallbackValue path s))"

fun get :: "pathkey \<Rightarrow> store \<Rightarrow> jsval \<times> store" where
  "get (Path k ks) s = getScoped (Path k ks) s"
| "get (Key k) s =
     (let v = map_get (smap s) k
      in (if nullish v then getFallbackValue k s else v, s))"

definition getSize :: "store \<Rightarrow> nat" where
  "getSize s = length (smap s)"

subsection \<open>Writing\<close>

text \<open>
  The loop of \<^verbatim>\<open>set\<close> over the inner segments: a missing container is created as an
  empty object, in place (the new object gets the next free address, \<open>length h\<close>); the
  result is the heap and the object the last segment is assigned on.
\<close>

fun set_loop :: "heap \<Rightarrow> jsval \<Rightarrow> seg list \<Rightarrow> error + (heap \<times> jsval)" where
  "set_loop h current [] = Inr (h, current)"
| "set_loop h current (k # ks) =
     (if nullish current then Inl TypeError
      else (case (if prop_get h current (seg_str k) = VUndef
                  then map_sum id (\<lambda>h1. h1 @ [JSObj False []])
                         (prop_write h current (seg_str k) (VRef (length h)))
                  else Inr h) of
              Inl e \<Rightarrow> Inl e
            | Inr h1 \<Rightarrow> set_loop h1 (prop_get h1 current (seg_str k)) ks))"

text \<open>The \<^verbatim>\<open>if (notify)\<close> block that ends \<^verbatim>\<open>set\<close>.\<close>

definition notify_set :: "pathkey \<Rightarrow> bool \<Rightarrow> store \<Rightarrow> store" where
  "notify_set path notify s =
     (if notify
      then (let s1 = syncItem path s
            in if length (pathArray path) = 1 then syncKeys (syncSize s1) else s1)
      else s)"

text \<open>
  The method \<^verbatim>\<open>set\<close>. A multi-segment path whose top-level value is \<^verbatim>\<open>undefined\<close>
  returns at once; a TypeError of the loop or of the last assignment leaves the method.
\<close>

definition set_item :: "pathkey \<Rightarrow> jsval \<Rightarrow> bool \<Rightarrow> store \<Rightarrow> error + store" where
  "set_item path item notify s =
     (let pathArr = pathArray path; topLevelKey = hd pathArr
      in if length pathArr = 1
         then Inr (notify_set path notify (sendToDevtools ''SET'' False
                (s\<lparr>smap := AList.update topLevelKey item (smap s)\<rparr>)))
         else (let existingData = map_get (smap s) topLevelKey
               in if existingData = VUndef then Inr s
                  else (case set_loop (heap s) existingData (butlast (tl pathArr)) of
                          Inl e \<Rightarrow> Inl e
                        | Inr (h1, current) \<Rightarrow>
                            (case prop_write h1 current (seg_str (last pathArr)) item of
                               Inl e \<Rightarrow> Inl e
                             | Inr h2 \<Rightarrow>
                                 Inr (notify_set path notify (sendToDevtools ''SET'' False
                                   (s\<lparr>heap := h2,
                                      smap := AList.update topLevelKey existingData
                                                (smap s)\<rparr>)))))))"

subsection \<open>Updating\<close>

text \<open>
  The second argument of \<^verbatim>\<open>update\<close>: an updater function, which may read and allocate
  in the heap, or a value.
\<close>

datatype updarg = UFun "heap \<Rightarrow> jsval \<Rightarrow> jsval \<times> heap" | UVal jsval

text \<open>
  The three-way branch on \<^verbatim>\<open>item\<close> that both arms of \<^verbatim>\<open>update\<close> share: the new
  value for the place whose current value is \<open>prev\<close>.
\<close>

fun apply_item :: "updarg \<Rightarrow> heap \<Rightarrow> jsval \<Rightarrow> jsval \<times> heap" where
  "apply_item (UFun f) h prev = f h prev"
| "apply_item (UVal item) h prev =
     (if is_plain_object h item
      then (VRef (length h), h @ [JSObj False (merge_props (spread h prev) (spread h item))])
      else (item, h))"

text \<open>
  The loop of the nested arm; \<^const>\<open>None\<close> is its \<^verbatim>\<open>return\<close>, after which the clone
  made before the loop is unreachable and the store is as it was.
\<close>

fun update_loop :: "heap \<Rightarrow> jsval \<Rightarrow> seg list \<Rightarrow> jsval option" where
  "update_loop h current [] = Some current"
| "update_loop h current (k # ks) =
     (let current' = prop_get h current (seg_str k)
      in if nullish current' then None else update_loop h current' ks)"

definition update :: "pathkey \<Rightarrow> updarg \<Rightarrow> bool \<Rightarrow> bool \<Rightarrow> store \<Rightarrow> error + store" where
  "update path item notify skipSnapshot s =
     (let pathArr = pathArray path; topLevelKey = hd pathArr
      in if \<not> map_has (smap s) topLevelKey then Inr s
         else (let data = map_get (smap s) topLevelKey;
                   finish = (\<lambda>s1. let s2 = sendToDevtools ''UPDATE'' skipSnapshot s1
                                   in if notify then syncItem path s2 else s2)
               in if length pathArr = 1
                  then (let (updatedItem, h1) = apply_item item (heap s) data
                        in Inr (finish (s\<lparr>heap := h1,
                                          smap := AList.update topLevelKey updatedItem (smap s)\<rparr>)))
                  else (let updatedItem = VRef (length (heap s));
                            h1 = heap s @ [JSObj False (spread (heap s) data)]
                        in case update_loop h1 updatedItem (butlast (tl pathArr)) of
                             None \<Rightarrow> Inr s
                           | Some current \<Rightarrow>
                               (let lastKey = seg_str (last pathArr);
                                    (v, h2) = apply_item item h1 (prop_get h1 current lastKey)
                                in case prop_write h2 current lastKey v of
                                     Inl e \<Rightarrow> Inl e
                                   | Inr h3 \<Rightarrow>
                                       Inr (finish (s\<lparr>heap := h3,
                                              smap := AList.update topLevelKey updatedItem
                                                        (smap s)\<rparr>))))))"

text \<open>
  \<^verbatim>\<open>batchUpdate\<close> takes an object: its own properties, with distinct string keys, in
  insertion order.
\<close>

fun batchUpdate_loop ::
  "(string \<times> updarg) list \<Rightarrow> store \<Rightarrow> seg list \<Rightarrow> error + (store \<times> seg list)" where
  "batchUpdate_loop [] s updatedKeys = Inr (s, updatedKeys)"
| "batchUpdate_loop ((key, upd) # rest) s updatedKeys =
     (case upd of
        UVal VUndef \<Rightarrow> batchUpdate_loop rest s updatedKeys
      | _ \<Rightarrow>
          (case update (Key (SStr key)) upd False False s of
             Inl e \<Rightarrow> Inl e
           | Inr s1 \<Rightarrow> batchUpdate_loop rest s1 (set_add (SStr key) updatedKeys)))"

definition batchUpdate ::
  "(string \<times> updarg) list \<Rightarrow> bool \<Rightarrow> bool \<Rightarrow> store \<Rightarrow> error + store" where
  "batchUpdate updates notify skipSnapshot s =
     (case batchUpdate_loop updates s [] of
        Inl e \<Rightarrow> Inl e
      | Inr (s1, updatedKeys) \<Rightarrow>
          (let s2 = sendToDevtools ''BATCH_UPDATE'' skipSnapshot s1
           in Inr (if notify then syncItems (map Key updatedKeys) s2 else s2)))"

definition remove :: "seg \<Rightarrow> bool \<Rightarrow> bool \<Rightarrow> store \<Rightarrow> store" where
  "remove key notify skipSnapshot s =
     (let s1 = sendToDevtools ''REMOVE'' skipSnapshot (s\<lparr>smap := AList.delete key (smap s)\<rparr>)
      in if notify then syncKeys (syncSize (syncItem (Key key) s1)) else s1)"

subsection \<open>Construction\<close>

record store_props =
  p_name :: "string option"
  p_initialMap :: "(seg \<times> jsval) list option"
  p_fallbackValue :: jsval
  p_devtools :: "bool option"
  p_type :: "store_type option"

text \<open>
  The constructor, given whether the page has the DevTools extension and the heap that
  holds the objects of the initial map and of the fallback value.
\<close>

definition create :: "store_props \<Rightarrow> bool \<Rightarrow> heap \<Rightarrow> store" where
  "create p extension h =
     (let m = (case p_initialMap p of Some m \<Rightarrow> m | None \<Rightarrow> []);
          s = \<lparr>smap = m, itemSubscribers = [], sizeSubscribers = [], keysSubscribers = [],
               fallbackValue = p_fallbackValue p, devtools = False,
               stype = (case p_type p of Some t \<Rightarrow> t | None \<Rightarrow> TMap),
               initialState = m, pathCache = [], nestedFallbackValueCache = [],
               itemSubscriberPaths = [], devtoolsStateCache = [], heap = h, trace = []\<rparr>
      in if (case p_name p of Some n \<Rightarrow> n \<noteq> [] | None \<Rightarrow> False)
            \<and> (case p_devtools p of Some d \<Rightarrow> d | None \<Rightarrow> True)
            \<and> extension
         then s\<lparr>devtools := True, trace := [DevtoolsInit m]\<rparr>
         else s)"

subsection \<open>Debug mirror, inbound\<close>

record devtools_message =
  m_type :: string
  m_payload_type :: string
  m_state :: "string option"

text \<open>
  \<^verbatim>\<open>Object.entries(obj)\<close> throws on \<^verbatim>\<open>undefined\<close> and \<^verbatim>\<open>null\<close>; the keys of the new
  map are the property names, which are strings.
\<close>

definition setMapFromObject :: "jsval \<Rightarrow> bool \<Rightarrow> store \<Rightarrow> error + store" where
  "setMapFromObject obj notify s =
     (if nullish obj then Inl TypeError
      else Inr (setMap (fold (\<lambda>(key, v). AList.update (SStr key) v) (spread (heap s) obj) [])
                  notify True s))"

text \<open>
  \<^verbatim>\<open>JSON.parse\<close> is the host's: \<open>parse\<close> gives the parsed value and the heap with the
  objects it allocated, or \<^const>\<open>None\<close> where \<^verbatim>\<open>JSON.parse\<close> throws a SyntaxError.
\<close>

definition handleDevToolsMessage ::
  "(string \<Rightarrow> heap \<Rightarrow> (jsval \<times> heap) option) \<Rightarrow> devtools_message \<Rightarrow> store \<Rightarrow> store" where
  "handleDevToolsMessage parse message s =
     (if m_type message = ''DISPATCH''
      then (if m_payload_type message = ''RESET''
            then setMap (initialState s) True True s
            else if m_payload_type message = ''COMMIT''
            then (if devtools s then s\<lparr>trace := trace s @ [DevtoolsInit (smap s)]\<rparr> else s)
            else if m_payload_type message \<in> {''ROLLBACK'', ''JUMP_TO_STATE'', ''JUMP_TO_ACTION''}
            then (case m_state message of
                    None \<Rightarrow> s
                  | Some st \<Rightarrow>
                      if st = [] then s
                      else (case parse st (heap s) of
                              None \<Rightarrow> s\<lparr>trace := trace s @ [ConsoleError]\<rparr>
                            | Some (newState, h1) \<Rightarrow>
                                (case setMapFromObject newState False (s\<lparr>heap := h1\<rparr>) of
                                   Inl e \<Rightarrow> s\<lparr>trace := trace s @ [ConsoleError]\<rparr>
                                 | Inr s1 \<Rightarrow> syncMap s1)))
            else s)
      else s)"

section \<open>Predicates of the specification\<close>

text \<open>
  The registry as the two fields keep it: a map with one entry per identity, every
  entry a non-empty set, and \<^verbatim>\<open>itemSubscriberPaths\<close> the set of its keys.
\<close>

definition registry_inv :: "store \<Rightarrow> bool" where
  "registry_inv s =
     (distinct (map fst (itemSubscribers s))
      \<and> (\<forall>p cbs. map_of (itemSubscribers s) p = Some cbs \<longrightarrow> cbs \<noteq> [])
      \<and> set (itemSubscriberPaths s) = dom (map_of (itemSubscribers s)))"

text \<open>The identities that have a callback subscribed.\<close>

definition subscribed_paths :: "store \<Rightarrow> string list" where
  "subscribed_paths s = map fst (filter (\<lambda>(p, cbs). cbs \<noteq> []) (itemSubscribers s))"

text \<open>The calls of sync functions in a trace.\<close>

fun is_sync :: "event \<Rightarrow> bool" where
  "is_sync (Sync c batch) = True"
| "is_sync e = False"

definition sync_events :: "event list \<Rightarrow> event list" where
  "sync_events t = filter is_sync t"

text \<open>The keys of an updates object whose value is not \<^verbatim>\<open>undefined\<close>.\<close>

fun is_given :: "updarg \<Rightarrow> bool" where
  "is_given (UVal VUndef) = False"
| "is_given u = True"

definition given_keys :: "(string \<times> updarg) list \<Rightarrow> seg list" where
  "given_keys updates = map (\<lambda>(k, u). SStr k) (filter (\<lambda>(k, u). is_given u) updates)"

text \<open>
  The scenario of the specification: initial state \<^verbatim>\<open>{user: {name: 'John', roles: []}}\<close>,
  type \<^verbatim>\<open>'object'\<close>, fallback \<^verbatim>\<open>{user: {name: 'Anon', roles: ['guest']}}\<close>. The heap holds
  the entry at address 0, its \<^verbatim>\<open>roles\<close> array at 1, the fallback at 2, its \<^verbatim>\<open>user\<close>
  object at 3 and the \<^verbatim>\<open>roles\<close> array of that at 4.
\<close>

definition scenario_heap :: heap where
  "scenario_heap =
     [JSObj False [(''name'', VStr ''John''), (''roles'', VRef 1)],
      JSObj True [],
      JSObj False [(''user'', VRef 3)],
      JSObj False [(''name'', VStr ''Anon''), (''roles'', VRef 4)],
      JSObj True [(''0'', VStr ''guest'')]]"

definition scenario_store :: "jsval \<Rightarrow> store" where
  "scenario_store fallback =
     create \<lparr>p_name = None, p_initialMap = Some [(SStr ''user'', VRef 0)],
             p_fallbackValue = fallback, p_devtools = None, p_type = Some TObject\<rparr>
       False scenario_heap"

text \<open>The reads and the removal of the scenario, in order, on one store.\<close>

definition scenario_reads :: "store \<Rightarrow> jsval \<times> jsval \<times> jsval \<times> jsval" where
  "scenario_reads s0 =
     (let (name_before, s1) = get (Path (SStr ''user'') [SStr ''name'']) s0;
          (roles_before, s2) = get (Path (SStr ''user'') [SStr ''roles'']) s1;
          s3 = remove (SStr ''user'') True False s2;
          (name_after, s4) = get (Path (SStr ''user'') [SStr ''name'']) s3;
          (roles_after, s5) = get (Path (SStr ''user'') [SStr ''roles'']) s4
      in (name_before, roles_before, name_after, roles_after))"

text \<open>An updater: \<^verbatim>\<open>n => n + 1\<close>.\<close>

definition increment :: "heap \<Rightarrow> jsval \<Rightarrow> jsval \<times> heap" where
  "increment h v = (case v of VNum n \<Rightarrow> VNum (n + 1) | _ \<Rightarrow> VUndef, h)"



text \<open>
  Two values, each in its own heap, are the same data: equal primitives, or objects
  of the same kind with the same property names and the same data under each name.
  This is the equality of a state with its parsed serialization, whose objects are
  new.
\<close>

inductive same_data :: "heap \<Rightarrow> heap \<Rightarrow> jsval \<Rightarrow> jsval \<Rightarrow> bool" for h h' where
  same_undef: "same_data h h' VUndef VUndef"
| same_null: "same_data h h' VNull VNull"
| same_bool: "same_data h h' (VBool b) (VBool b)"
| same_num: "same_data h h' (VNum n) (VNum n)"
| same_str: "same_data h h' (VStr x) (VStr x)"
| same_obj: "a < length h \<Longrightarrow> b < length h' \<Longrightarrow> is_array (h ! a) = is_array (h' ! b) \<Longrightarrow>
     set (map fst (props (h ! a))) = set (map fst (props (h' ! b))) \<Longrightarrow>
     (\<forall>p \<in> set (props (h ! a)). same_data h h' (snd p) (map_get (props (h' ! b)) (fst p))) \<Longrightarrow>
     same_data h h' (VRef a) (VRef b)"

text \<open>
  Two lists of entries have the same keys and the same data under each key; for two
  maps of the store, they are the same state (the order of the keys apart).
\<close>

definition same_entries ::
  "heap \<Rightarrow> heap \<Rightarrow> ('k \<times> jsval) list \<Rightarrow> ('k \<times> jsval) list \<Rightarrow> bool" where
  "same_entries h h' ps qs =
     (set (map fst ps) = set (map fst qs)
      \<and> (\<forall>p \<in> set ps. same_data h h' (snd p) (map_get qs (fst p))))"

definition same_state ::
  "heap \<Rightarrow> heap \<Rightarrow> (seg \<times> jsval) list \<Rightarrow> (seg \<times> jsval) list \<Rightarrow> bool" where
  "same_state h h' m m' = same_entries h h' m m'"

text \<open>
  \<^verbatim>\<open>Object.fromEntries(map)\<close>, the plain object that the store sends for its state: a
  key becomes the property name \<^verbatim>\<open>String(key)\<close>.
\<close>

definition obj_of_map :: "(seg \<times> jsval) list \<Rightarrow> (string \<times> jsval) list" where
  "obj_of_map m = fold (\<lambda>(k, x). AList.update (seg_str k) x) m []"

text \<open>
  The parsed value \<open>v\<close>, in heap \<open>h\<close>, is the serialization of the state \<open>m\<close> of
  heap \<open>h'\<close>: an object with the properties of \<^const>\<open>obj_of_map\<close> \<open>m\<close>, the same data
  under each.
\<close>

definition serializes :: "heap \<Rightarrow> jsval \<Rightarrow> heap \<Rightarrow> (seg \<times> jsval) list \<Rightarrow> bool" where
  "serializes h v h' m =
     (case v of
        VRef a \<Rightarrow> a < length h \<and> \<not> is_array (h ! a)
                  \<and> distinct (map fst (props (h ! a)))
                  \<and> same_entries h h' (props (h ! a)) (obj_of_map m)
      | _ \<Rightarrow> False)"

text \<open>Every key of the map is a string.\<close>

fun is_str_key :: "seg \<Rightarrow> bool" where
  "is_str_key (SStr x) = True"
| "is_str_key (SNum n) = False"

definition str_keyed :: "(seg \<times> jsval) list \<Rightarrow> bool" where
  "str_keyed m = list_all is_str_key (map fst m)"

text \<open>A DevTools message that asks for a jump to the state \<open>st\<close>.\<close>

definition is_jump :: "devtools_message \<Rightarrow> string \<Rightarrow> bool" where
  "is_jump message st =
     (m_type message = ''DISPATCH''
      \<and> m_payload_type message \<in> {''ROLLBACK'', ''JUMP_TO_STATE'', ''JUMP_TO_ACTION''}
      \<and> m_state message = Some st)"

text \<open>
  \<^verbatim>\<open>JSON.parse\<close> on the documents \<^verbatim>\<open>{"a":1}\<close> and \<^verbatim>\<open>{"1":5}\<close>, each of which it parses
  into a new object, and on strings that are not JSON.
\<close>

definition parse_example :: "string \<Rightarrow> heap \<Rightarrow> (jsval \<times> heap) option" where
  \<open>parse_example st h =
     (if st = ''{"a":1}'' then Some (VRef (length h), h @ [JSObj False [(''a'', VNum 1)]])
      else if st = ''{"1":5}'' then Some (VRef (length h), h @ [JSObj False [(''1'', VNum 5)]])
      else None)\<close>

definition jump_to_state :: "string \<Rightarrow> devtools_message" where
  "jump_to_state st =
     \<lparr>m_type = ''DISPATCH'', m_payload_type = ''JUMP_TO_STATE'', m_state = Some st\<rparr>"

text \<open>
  What \<^verbatim>\<open>syncItem\<close> is to deliver for a key or path: the identities of the proper
  prefixes of the path, and the callbacks registered at the identity of the path, at
  an identity that continues it after a separator, or at one of those prefixes.
\<close>

definition ancestor_ids :: "pathkey \<Rightarrow> string list" where
  "ancestor_ids key =
     map (\<lambda>n. pathToString_loop 0 (take n (pathArray key)) []) [1..<length (pathArray key)]"

definition affected :: "pathkey \<Rightarrow> string \<Rightarrow> bool" where
  "affected key q =
     (q = pathToString key \<or> startsWith q (pathToString key @ ''.'')
      \<or> q \<in> set (ancestor_ids key))"

definition expected_callbacks :: "store \<Rightarrow> pathkey \<Rightarrow> callback set" where
  "expected_callbacks s key =
     {cb. \<exists>q cbs. map_of (itemSubscribers s) q = Some cbs \<and> cb \<in> set cbs \<and> affected key q}"

text \<open>The path cache holds, for a path, the strings of its segments.\<close>

definition cache_ok :: "store \<Rightarrow> bool" where
  "cache_ok s =
     (\<forall>p r. map_of (pathCache s) p = Some r \<longrightarrow> r = map seg_str (pathArray p))"

text \<open>The string that the second loop of \<^verbatim>\<open>syncItem\<close> has accumulated after the given segments.\<close>

fun pjoin :: "string \<Rightarrow> string list \<Rightarrow> string" where
  "pjoin cur [] = cur"
| "pjoin cur (seg # rest) = pjoin (cur @ (if cur \<noteq> [] then ''.'' else []) @ seg) rest"




text \<open>A store built with no options, on a page without the DevTools extension.\<close>

definition no_props :: store_props where
  "no_props = \<lparr>p_name = None, p_initialMap = None, p_fallbackValue = VUndef,
                p_devtools = None, p_type = None\<rparr>"

section \<open>Sets and maps\<close>

lemma set_add_set [simp]: "set (set_add x xs) = insert x (set xs)"
  by (auto simp: set_add_def)

lemma set_add_nonempty [simp]: "set_add x xs \<noteq> []"
  by (auto simp: set_add_def)

lemma set_add_distinct [simp]: "distinct (set_add x xs) = distinct xs"
  by (simp add: set_add_def)

lemma set_delete_set [simp]: "set (set_delete x xs) = set xs - {x}"
  by (auto simp: set_delete_def)

section \<open>The subscription registry\<close>

lemma registry_invI:
  assumes "distinct (map fst (itemSubscribers s))"
    and "\<And>p cbs. map_of (itemSubscribers s) p = Some cbs \<Longrightarrow> cbs \<noteq> []"
    and "set (itemSubscriberPaths s) = dom (map_of (itemSubscribers s))"
  shows "registry_inv s"
  using assms unfolding registry_inv_def by blast

lemma registry_inv_create: "registry_inv (create p ext h)"
  by (simp add: registry_inv_def create_def Let_def)

lemma registry_inv_addSubscriber:
  assumes "registry_inv s"
  shows "registry_inv (addSubscriber path cb s)"
proof (rule registry_invI)
  show "distinct (map fst (itemSubscribers (addSubscriber path cb s)))"
    using assms by (simp add: registry_inv_def addSubscriber_def Let_def distinct_update)
next
  fix p cbs
  assume "map_of (itemSubscribers (addSubscriber path cb s)) p = Some cbs"
  then show "cbs \<noteq> []"
    using assms
    by (auto simp add: registry_inv_def addSubscriber_def Let_def update_conv'
          simp del: map_of_eq_Some_iff split: if_splits)
next
  show "set (itemSubscriberPaths (addSubscriber path cb s))
        = dom (map_of (itemSubscribers (addSubscriber path cb s)))"
    using assms
    by (auto simp add: registry_inv_def addSubscriber_def Let_def update_conv' map_has_def
          simp del: map_of_eq_Some_iff)
qed

lemma registry_inv_removeSubscriber:
  assumes "registry_inv s"
  shows "registry_inv (removeSubscriber path cb s)"
proof (cases "map_of (itemSubscribers s) (pathToString path)")
  case None
  then show ?thesis using assms by (simp add: removeSubscriber_def)
next
  case (Some subscribers)
  show ?thesis
  proof (rule registry_invI)
    show "distinct (map fst (itemSubscribers (removeSubscriber path cb s)))"
      using assms Some
      by (simp add: registry_inv_def removeSubscriber_def Let_def distinct_update
            distinct_delete del: map_of_eq_Some_iff)
  next
    fix p cbs
    assume "map_of (itemSubscribers (removeSubscriber path cb s)) p = Some cbs"
    then show "cbs \<noteq> []"
      using assms Some
      by (auto simp add: registry_inv_def removeSubscriber_def Let_def update_conv'
            delete_conv' simp del: map_of_eq_Some_iff split: if_splits)
  next
    show "set (itemSubscriberPaths (removeSubscriber path cb s))
          = dom (map_of (itemSubscribers (removeSubscriber path cb s)))"
      using assms Some
      by (auto simp add: registry_inv_def removeSubscriber_def Let_def update_conv'
            delete_conv' simp del: map_of_eq_Some_iff split: if_splits)
  qed
qed

lemma registry_inv_setMap:
  assumes "registry_inv s"
  shows "registry_inv (setMap m notify skip s)"
  using assms
  by (auto simp: registry_inv_def setMap_def Let_def sendToDevtools_def syncMap_def
        syncSize_def syncKeys_def split: if_splits)

lemma registry_size:
  assumes "registry_inv s"
  shows "length (itemSubscribers s) = card (set (subscribed_paths s))"
proof -
  have all: "\<forall>(p, cbs) \<in> set (itemSubscribers s). cbs \<noteq> []"
    using assms unfolding registry_inv_def
    by (metis (mono_tags, lifting) case_prodI2 map_of_is_SomeI)
  then have "filter (\<lambda>(p, cbs). cbs \<noteq> []) (itemSubscribers s) = itemSubscribers s"
    by (auto intro: filter_True)
  then have "subscribed_paths s = map fst (itemSubscribers s)"
    by (simp add: subscribed_paths_def)
  moreover have "distinct (map fst (itemSubscribers s))"
    using assms by (simp add: registry_inv_def)
  ultimately show ?thesis
    by (metis distinct_card length_map)
qed

lemma removeSubscriber_last:
  assumes "map_of (itemSubscribers s) (pathToString path) = Some [cb]"
  shows "map_of (itemSubscribers (removeSubscriber path cb s)) (pathToString path) = None"
  using assms by (simp add: removeSubscriber_def Let_def set_delete_def delete_conv')

text \<open>
  C9. Every identity in the item-subscriber registry maps to a non-empty callback set:
  the invariant holds in a new store and \<^const>\<open>addSubscriber\<close>, \<^const>\<open>removeSubscriber\<close>
  and \<^const>\<open>setMap\<close> preserve it; removing the last callback of an identity deletes the
  identity; so the registry has no more entries than there are identities with a
  subscriber.
\<close>

theorem registry_nonempty_invariant:
  "registry_inv (create p ext h)
   \<and> (registry_inv s \<longrightarrow>
        registry_inv (addSubscriber path cb s)
        \<and> registry_inv (removeSubscriber path cb s)
        \<and> registry_inv (setMap m notify skip s)
        \<and> length (itemSubscribers s) \<le> card (set (subscribed_paths s)))
   \<and> (map_of (itemSubscribers s) (pathToString path) = Some [cb] \<longrightarrow>
        map_of (itemSubscribers (removeSubscriber path cb s)) (pathToString path) = None)"
  using registry_inv_create registry_inv_addSubscriber registry_inv_removeSubscriber
    registry_inv_setMap registry_size removeSubscriber_last
  by (metis order_refl)

theorem registry_nonempty_invariant_witness:
  "registry_inv (addSubscriber (Key (SStr ''a'')) 1 (create no_props False []))
   \<and> map_of (itemSubscribers (addSubscriber (Key (SStr ''a'')) 1 (create no_props False [])))
        (pathToString (Key (SStr ''a''))) = Some [1]
   \<and> registry_inv (removeSubscriber (Key (SStr ''a'')) 1
        (addSubscriber (Key (SStr ''a'')) 1 (create no_props False [])))
   \<and> map_of (itemSubscribers (removeSubscriber (Key (SStr ''a'')) 1
        (addSubscriber (Key (SStr ''a'')) 1 (create no_props False []))))
        (pathToString (Key (SStr ''a''))) = None"
proof -
  let ?s = "addSubscriber (Key (SStr ''a'')) 1 (create no_props False [])"
  have inv: "registry_inv ?s"
    by (simp add: registry_inv_def addSubscriber_def create_def no_props_def Let_def
          map_has_def set_add_def dom_def)
  have one: "map_of (itemSubscribers ?s) (pathToString (Key (SStr ''a''))) = Some [1]"
    by (simp add: addSubscriber_def create_def no_props_def Let_def map_has_def set_add_def)
  show ?thesis
    using inv one
      registry_nonempty_invariant [of no_props False "[]" ?s "Key (SStr ''a'')" 1 "[]" True True]
    by blast
qed

section \<open>Replacing the whole map\<close>

text \<open>
  C4. \<^const>\<open>setMap\<close> with \<open>notify = true\<close> makes the new mapping the store's mapping and
  empties the item, size and keys registries; after the DevTools message, if any, it
  calls \<^const>\<open>syncMap\<close>, \<^const>\<open>syncSize\<close> and \<^const>\<open>syncKeys\<close> once each, in this order, and
  each finds its registry empty.
\<close>

theorem setMap_replaces_and_clears:
  "smap (setMap m True skip s) = m
   \<and> itemSubscribers (setMap m True skip s) = []
   \<and> itemSubscriberPaths (setMap m True skip s) = []
   \<and> sizeSubscribers (setMap m True skip s) = []
   \<and> keysSubscribers (setMap m True skip s) = []
   \<and> trace (setMap m True skip s) =
       trace (sendToDevtools ''SET_MAP'' skip (s\<lparr>smap := m\<rparr>))
         @ [Sync ChMap [], Sync ChSize [], Sync ChKeys []]"
  by (simp add: setMap_def Let_def syncMap_def syncSize_def syncKeys_def sendToDevtools_def)

theorem setMap_replaces_and_clears_witness:
  "smap (setMap [(SStr ''b'', VNum 2)] True False
     (addSubscriber (Key (SStr ''a'')) 1 (create no_props False []))) = [(SStr ''b'', VNum 2)]
   \<and> itemSubscribers (setMap [(SStr ''b'', VNum 2)] True False
     (addSubscriber (Key (SStr ''a'')) 1 (create no_props False []))) = []
   \<and> trace (setMap [(SStr ''b'', VNum 2)] True False
     (addSubscriber (Key (SStr ''a'')) 1 (create no_props False [])))
       = [Sync ChMap [], Sync ChSize [], Sync ChKeys []]"
  using setMap_replaces_and_clears [of "[(SStr ''b'', VNum 2)]" False
      "addSubscriber (Key (SStr ''a'')) 1 (create no_props False [])"]
  by (simp add: sendToDevtools_def addSubscriber_def create_def no_props_def Let_def)

section \<open>Reading a top-level key\<close>

text \<open>
  C10. For a bare key whose stored value is \<^verbatim>\<open>null\<close>, \<^const>\<open>get\<close> returns what
  \<^const>\<open>getFallbackValue\<close> gives: the same as for the store without the entry.
\<close>

theorem get_null_is_fallback:
  "map_of (smap s) k = Some VNull \<Longrightarrow>
     fst (get (Key k) s) = getFallbackValue k s
     \<and> fst (get (Key k) s) = fst (get (Key k) (s\<lparr>smap := AList.delete k (smap s)\<rparr>))"
  by (simp add: Let_def map_get_def delete_conv' getFallbackValue_def)

theorem get_null_is_fallback_witness:
  "map_of (smap (create (no_props\<lparr>p_initialMap := Some [(SStr ''k'', VNull)],
                                 p_fallbackValue := VNum 7\<rparr>) False [])) (SStr ''k'') = Some VNull
   \<and> fst (get (Key (SStr ''k''))
        (create (no_props\<lparr>p_initialMap := Some [(SStr ''k'', VNull)],
                          p_fallbackValue := VNum 7\<rparr>) False [])) = VNum 7"
proof -
  let ?s = "create (no_props\<lparr>p_initialMap := Some [(SStr ''k'', VNull)],
                            p_fallbackValue := VNum 7\<rparr>) False []"
  have h: "map_of (smap ?s) (SStr ''k'') = Some VNull"
    by (simp add: create_def no_props_def Let_def)
  have f: "getFallbackValue (SStr ''k'') ?s = VNum 7"
    by (simp add: getFallbackValue_def create_def no_props_def Let_def)
  show ?thesis
    using h f get_null_is_fallback [OF h] by simp
qed

section \<open>What the sync functions deliver\<close>

lemma add_all_set [simp]: "set (add_all cbs b) = set cbs \<union> set b"
  unfolding add_all_def by (induction cbs arbitrary: b) auto

lemma add_all_distinct [simp]: "distinct (add_all cbs b) = distinct b"
  unfolding add_all_def by (induction cbs arbitrary: b) auto

lemma sub_loop_distinct: "distinct b \<Longrightarrow> distinct (sub_loop subs p paths b)"
  by (induction paths arbitrary: b) (auto split: option.splits)

lemma sub_loop_mem:
  "x \<in> set (sub_loop subs p paths b) \<longleftrightarrow>
     x \<in> set b \<or> (\<exists>q \<in> set paths. (q = p \<or> startsWith q (p @ ''.''))
                       \<and> (\<exists>c. map_of subs q = Some c \<and> x \<in> set c))"
  by (induction paths arbitrary: b) (auto split: option.splits)

lemma parent_loop_distinct: "distinct b \<Longrightarrow> distinct (parent_loop subs segs cur b)"
  by (induction segs arbitrary: cur b) (auto simp: Let_def split: option.splits)

lemma parent_loop_mem:
  "x \<in> set (parent_loop subs segs cur b) \<longleftrightarrow>
     x \<in> set b \<or> (\<exists>n. 1 \<le> n \<and> n \<le> length segs
                       \<and> (\<exists>c. map_of subs (pjoin cur (take n segs)) = Some c \<and> x \<in> set c))"
proof (induction segs arbitrary: cur b)
  case Nil
  then show ?case by simp
next
  case (Cons seg rest)
  let ?cur = "cur @ (if cur \<noteq> [] then ''.'' else []) @ seg"
  have split: "\<And>P. (\<exists>n. 1 \<le> n \<and> n \<le> length (seg # rest) \<and> P n)
                 \<longleftrightarrow> P 1 \<or> (\<exists>n. 1 \<le> n \<and> n \<le> length rest \<and> P (Suc n))"
  proof -
    fix P :: "nat \<Rightarrow> bool"
    show "(\<exists>n. 1 \<le> n \<and> n \<le> length (seg # rest) \<and> P n)
          \<longleftrightarrow> P 1 \<or> (\<exists>n. 1 \<le> n \<and> n \<le> length rest \<and> P (Suc n))"
    proof
      assume "\<exists>n. 1 \<le> n \<and> n \<le> length (seg # rest) \<and> P n"
      then obtain n where n: "1 \<le> n" "n \<le> length (seg # rest)" "P n" by blast
      show "P 1 \<or> (\<exists>n. 1 \<le> n \<and> n \<le> length rest \<and> P (Suc n))"
      proof (cases "n = 1")
        case True then show ?thesis using n by simp
      next
        case False
        then obtain m where "n = Suc m" "1 \<le> m" using n(1) by (cases n) auto
        then show ?thesis using n by auto
      qed
    next
      assume "P 1 \<or> (\<exists>n. 1 \<le> n \<and> n \<le> length rest \<and> P (Suc n))"
      then show "\<exists>n. 1 \<le> n \<and> n \<le> length (seg # rest) \<and> P n"
        by (metis One_nat_def Suc_le_mono le_SucI length_Cons le_refl le0 not_less_eq_eq)
    qed
  qed
  show ?case
    unfolding split
    by (auto simp: Let_def Cons.IH split: option.splits)
qed

lemma pathToString_loop_pjoin:
  "0 < i \<Longrightarrow> r \<noteq> [] \<Longrightarrow> pathToString_loop i xs r = pjoin r (map seg_str xs)"
  by (induction xs arbitrary: i r) auto

lemma pathToString_loop_start:
  "seg_str x \<noteq> [] \<Longrightarrow> pathToString_loop 0 (x # xs) [] = pjoin [] (map seg_str (x # xs))"
  by (simp add: pathToString_loop_pjoin)

lemma pathToString_pjoin:
  "seg_str (hd (pathArray key)) \<noteq> [] \<Longrightarrow>
     pathToString key = pjoin [] (map seg_str (pathArray key))"
  by (cases key) (simp_all add: pathToString_loop_pjoin)

lemma prefix_pjoin:
  assumes "seg_str (hd segs) \<noteq> []" "1 \<le> n"
  shows "pathToString_loop 0 (take n segs) [] = pjoin [] (take n (map seg_str segs))"
proof (cases segs)
  case Nil
  then show ?thesis by simp
next
  case (Cons x xs)
  obtain m where m: "n = Suc m" using assms(2) by (cases n) auto
  show ?thesis using Cons m assms(1) by (simp add: pathToString_loop_pjoin take_map)
qed

lemma pathToString_as_loop: "pathToString key = pathToString_loop 0 (pathArray key) []"
  by (cases key) simp_all

lemma segs_of_key:
  "(case key of Path k ks \<Rightarrow> map seg_str (k # ks) | Key k \<Rightarrow> [seg_str k])
   = map seg_str (pathArray key)"
  by (cases key) simp_all

lemma cache_ok_create: "cache_ok (create p ext h)"
  by (simp add: cache_ok_def create_def Let_def)

lemma pathToStringArray_fst:
  assumes "cache_ok s"
  shows "fst (pathToStringArray key s) = map seg_str (pathArray key)"
  proof (cases "map_of (pathCache s) key")
    case None
    then show ?thesis by (simp add: pathToStringArray_def segs_of_key Let_def)
  next
    case (Some cached)
    then have "cached = map seg_str (pathArray key)"
      using assms unfolding cache_ok_def by blast
    then show ?thesis using Some by (simp add: pathToStringArray_def)
  qed

lemma pathToStringArray_snd [simp]:
  "itemSubscribers (snd (pathToStringArray key s)) = itemSubscribers s"
  "trace (snd (pathToStringArray key s)) = trace s"
  by (cases "map_of (pathCache s) key"; simp add: pathToStringArray_def Let_def)+

lemma syncItem_unfold:
  "syncItem key s =
     (snd (pathToStringArray key s))
       \<lparr>trace := trace (snd (pathToStringArray key s)) @
          [Sync (ChItem key)
             (parent_loop (itemSubscribers (snd (pathToStringArray key s)))
                (fst (pathToStringArray key s)) []
                (sub_loop (itemSubscribers s) (pathToString key) (itemSubscriberPaths s) []))]\<rparr>"
  by (simp add: syncItem_def Let_def case_prod_beta)

lemma cache_ok_pathToStringArray:
  assumes "cache_ok s"
  shows "cache_ok (snd (pathToStringArray key s))"
proof (cases "map_of (pathCache s) key")
  case None
  let ?R = "map seg_str (pathArray key)"
  have eq: "snd (pathToStringArray key s) = s\<lparr>pathCache := AList.update key ?R (pathCache s)\<rparr>"
    using None by (simp add: pathToStringArray_def segs_of_key Let_def)
  show ?thesis
    unfolding eq cache_ok_def
  proof (intro allI impI)
    fix p r
    assume "map_of (pathCache (s\<lparr>pathCache := AList.update key ?R (pathCache s)\<rparr>)) p = Some r"
    then have m: "((map_of (pathCache s))(key \<mapsto> ?R)) p = Some r"
      by (simp add: update_conv' del: map_of_eq_Some_iff)
    show "r = map seg_str (pathArray p)"
    proof (cases "p = key")
      case True
      then show ?thesis using m by simp
    next
      case False
      then have "map_of (pathCache s) p = Some r" using m by simp
      then show ?thesis using assms unfolding cache_ok_def by blast
    qed
  qed
next
  case (Some cached)
  then show ?thesis using assms by (simp add: pathToStringArray_def)
qed

text \<open>
  For a key or path whose first segment is not the empty string, \<^const>\<open>syncItem\<close>
  hands to \<^verbatim>\<open>batchedUpdate\<close> each expected callback once and no other callback.
\<close>

lemma syncItem_union:
  assumes inv: "registry_inv s" and cache: "cache_ok s"
    and ne: "seg_str (hd (pathArray key)) \<noteq> []"
  shows "\<exists>cbs. trace (syncItem key s) = trace s @ [Sync (ChItem key) cbs]
           \<and> distinct cbs \<and> set cbs = expected_callbacks s key"
proof -
  let ?subs = "itemSubscribers s"
  let ?segs = "map seg_str (pathArray key)"
  let ?p = "pathToString key"
  let ?batch = "sub_loop ?subs ?p (itemSubscriberPaths s) []"
  let ?cbs = "parent_loop ?subs ?segs [] ?batch"
  have tr: "trace (syncItem key s) = trace s @ [Sync (ChItem key) ?cbs]"
    by (simp add: syncItem_unfold pathToStringArray_fst [OF cache])
  have dist: "distinct ?cbs"
    by (simp add: parent_loop_distinct sub_loop_distinct)
  have paths: "set (itemSubscriberPaths s) = dom (map_of ?subs)"
    using inv by (simp add: registry_inv_def)
  have mem: "\<And>x. x \<in> set ?cbs \<longleftrightarrow>
      (\<exists>q \<in> set (itemSubscriberPaths s). (q = ?p \<or> startsWith q (?p @ ''.''))
          \<and> (\<exists>c. map_of ?subs q = Some c \<and> x \<in> set c))
      \<or> (\<exists>n. 1 \<le> n \<and> n \<le> length ?segs
          \<and> (\<exists>c. map_of ?subs (pjoin [] (take n ?segs)) = Some c \<and> x \<in> set c))"
    by (simp only: parent_loop_mem sub_loop_mem list.set empty_iff simp_thms)
  have pre: "\<And>n. 1 \<le> n \<Longrightarrow>
      pjoin [] (take n ?segs) = pathToString_loop 0 (take n (pathArray key)) []"
    using prefix_pjoin [OF ne] by simp
  have "set ?cbs = expected_callbacks s key"
  proof (rule set_eqI)
    fix x
    show "x \<in> set ?cbs \<longleftrightarrow> x \<in> expected_callbacks s key"
    proof
      assume "x \<in> set ?cbs"
      then consider
          (sub) q c where "q \<in> set (itemSubscriberPaths s)"
            "q = ?p \<or> startsWith q (?p @ ''.'')" "map_of ?subs q = Some c" "x \<in> set c"
        | (par) n c where "1 \<le> n" "n \<le> length ?segs"
            "map_of ?subs (pjoin [] (take n ?segs)) = Some c" "x \<in> set c"
        unfolding mem by blast
      then show "x \<in> expected_callbacks s key"
      proof cases
        case sub
        have "affected key q" using sub(2) unfolding affected_def by blast
        then show ?thesis
          unfolding expected_callbacks_def using sub(3,4) by blast
      next
        case par
        let ?q = "pathToString_loop 0 (take n (pathArray key)) []"
        have q: "pjoin [] (take n ?segs) = ?q"
          using pre [OF par(1)] .
        have "affected key ?q"
        proof (cases "n = length (pathArray key)")
          case True
          then have "?q = pathToString key" by (simp add: pathToString_as_loop)
          then show ?thesis unfolding affected_def by blast
        next
          case False
          then have "n \<in> set [1..<length (pathArray key)]" using par(1,2) by simp
          then have "?q \<in> set (ancestor_ids key)"
            unfolding ancestor_ids_def by (simp only: set_map) (rule imageI)
          then show ?thesis unfolding affected_def by blast
        qed
        moreover have "map_of ?subs ?q = Some c" using par(3) q by simp
        ultimately show ?thesis
          unfolding expected_callbacks_def using par(4) by blast
      qed
    next
      assume "x \<in> expected_callbacks s key"
      then obtain q c where qc: "map_of ?subs q = Some c" "x \<in> set c" "affected key q"
        unfolding expected_callbacks_def by blast
      have inp: "q \<in> set (itemSubscriberPaths s)"
        using qc(1) paths by blast
      show "x \<in> set ?cbs"
      proof (cases "q = ?p \<or> startsWith q (?p @ ''.'')")
        case True
        then show ?thesis
          unfolding mem using inp qc(1,2) by blast
      next
        case False
        then have "q \<in> set (ancestor_ids key)" using qc(3) unfolding affected_def by blast
        then obtain n where n: "n \<in> set [1..<length (pathArray key)]"
            "q = pathToString_loop 0 (take n (pathArray key)) []"
          unfolding ancestor_ids_def by (auto simp only: set_map)
        have n1: "1 \<le> n" and n2: "n \<le> length ?segs" using n(1) by simp_all
        have "map_of ?subs (pjoin [] (take n ?segs)) = Some c"
          using pre [OF n1] n(2) qc(1) by simp
        then show ?thesis
          unfolding mem using n1 n2 qc(2) by blast
      qed
    qed
  qed
  then show ?thesis using tr dist by blast
qed

text \<open>
  \<^const>\<open>syncItems\<close> collects, for each of its keys, the callbacks registered at the
  identity of the key or at an identity that continues it after a separator.
\<close>

lemma syncItems_loop_mem:
  "x \<in> set (syncItems_loop subs paths keys b) \<longleftrightarrow>
     x \<in> set b \<or> (\<exists>key \<in> set keys. \<exists>q \<in> set paths.
        (q = pathToString key \<or> startsWith q (pathToString key @ ''.''))
        \<and> (\<exists>c. map_of subs q = Some c \<and> x \<in> set c))"
proof (induction keys arbitrary: b)
  case Nil
  then show ?case by simp
next
  case (Cons key keys)
  show ?case
    unfolding syncItems_loop.simps Cons.IH sub_loop_mem by (simp only: set_simps bex_simps) blast
qed

section \<open>Notification of one path and of several\<close>

text \<open>
  C1. \<^const>\<open>syncItem\<close> is to deliver to the callbacks registered at the path, at its
  descendants and at its proper prefixes, and to no other. With one callback
  registered at \<^verbatim>\<open>a\<close>, \<^verbatim>\<open>syncItem(['', 'a'])\<close>, whose identity is \<^verbatim>\<open>.a\<close>, invokes that
  callback: the second loop joins the segments with a separator only once the
  accumulated string is non-empty, so after the empty first segment it looks up \<^verbatim>\<open>a\<close>.
\<close>

theorem syncItem_empty_first_segment:
  "trace (syncItem (Path (SStr '''') [SStr ''a''])
      (addSubscriber (Key (SStr ''a'')) 7 (create no_props False [])))
     = [Sync (ChItem (Path (SStr '''') [SStr ''a''])) [7]]
   \<and> pathToString (Path (SStr '''') [SStr ''a'']) = ''.a''
   \<and> pathToString (Key (SStr ''a'')) = ''a''"
  by code_simp

text \<open>
  C7. \<^const>\<open>syncItems\<close> is to deliver, for each path, what \<^const>\<open>syncItem\<close> delivers for it.
  With one callback registered at \<^verbatim>\<open>a\<close>, \<^verbatim>\<open>syncItems([['a', 'b']])\<close> delivers to nobody,
  while \<^verbatim>\<open>syncItem(['a', 'b'])\<close> invokes the callback: \<^const>\<open>syncItems\<close> has no loop over
  the prefixes of a path.
\<close>

theorem syncItems_misses_ancestors:
  "trace (syncItems [Path (SStr ''a'') [SStr ''b'']]
      (addSubscriber (Key (SStr ''a'')) 1 (create no_props False [])))
     = [Sync (ChItems [Path (SStr ''a'') [SStr ''b'']]) []]
   \<and> trace (syncItem (Path (SStr ''a'') [SStr ''b''])
      (addSubscriber (Key (SStr ''a'')) 1 (create no_props False [])))
     = [Sync (ChItem (Path (SStr ''a'') [SStr ''b''])) [1]]"
  by code_simp

section \<open>Batch update\<close>

lemma sync_events_append [simp]: "sync_events (a @ b) = sync_events a @ sync_events b"
  by (simp add: sync_events_def)

lemma sync_events_single [simp]: "sync_events [Sync c b] = [Sync c b]"
  by (simp add: sync_events_def)

lemma sendToDevtools_facts [simp]:
  "smap (sendToDevtools a sk s) = smap s"
  "heap (sendToDevtools a sk s) = heap s"
  "itemSubscribers (sendToDevtools a sk s) = itemSubscribers s"
  "itemSubscriberPaths (sendToDevtools a sk s) = itemSubscriberPaths s"
  "sync_events (trace (sendToDevtools a sk s)) = sync_events (trace s)"
  by (simp_all add: sendToDevtools_def Let_def sync_events_def)

text \<open>An update of a bare key never throws, and keeps the key set of the map.\<close>

lemma update_Key:
  "\<exists>s'. update (Key k) u False sk s = Inr s'
        \<and> itemSubscribers s' = itemSubscribers s
        \<and> itemSubscriberPaths s' = itemSubscriberPaths s
        \<and> sync_events (trace s') = sync_events (trace s)
        \<and> dom (map_of (smap s')) = dom (map_of (smap s))"
  by (auto simp: update_def Let_def map_has_def update_conv' split: prod.splits)

lemma batchUpdate_loop_given:
  "is_given u \<Longrightarrow>
     batchUpdate_loop ((k, u) # ups) s acc =
       (case update (Key (SStr k)) u False False s of
          Inl e \<Rightarrow> Inl e
        | Inr s1 \<Rightarrow> batchUpdate_loop ups s1 (set_add (SStr k) acc))"
  by (cases u rule: is_given.cases) simp_all

lemma batchUpdate_loop_total:
  "\<exists>s' ks. batchUpdate_loop ups s acc = Inr (s', ks)
        \<and> itemSubscribers s' = itemSubscribers s
        \<and> itemSubscriberPaths s' = itemSubscriberPaths s
        \<and> sync_events (trace s') = sync_events (trace s)
        \<and> dom (map_of (smap s')) = dom (map_of (smap s))
        \<and> (distinct acc \<longrightarrow> distinct ks)
        \<and> set ks = set acc \<union> set (given_keys ups)"
proof (induction ups arbitrary: s acc)
  case Nil
  then show ?case by (simp add: given_keys_def)
next
  case (Cons p ups)
  obtain key upd where p: "p = (key, upd)" by (cases p)
  show ?case
  proof (cases "is_given upd")
    case False
    then have u: "upd = UVal VUndef"
      by (cases upd rule: is_given.cases) auto
    show ?thesis using Cons.IH [of s acc] p u by (simp add: given_keys_def)
  next
    case True
    obtain s1 where s1: "update (Key (SStr key)) upd False False s = Inr s1"
        "itemSubscribers s1 = itemSubscribers s"
        "itemSubscriberPaths s1 = itemSubscriberPaths s"
        "sync_events (trace s1) = sync_events (trace s)"
        "dom (map_of (smap s1)) = dom (map_of (smap s))"
      using update_Key by blast
    have step: "batchUpdate_loop (p # ups) s acc
                = batchUpdate_loop ups s1 (set_add (SStr key) acc)"
      using True s1(1) p by (simp add: batchUpdate_loop_given del: batchUpdate_loop.simps)
    have keys: "set (given_keys (p # ups)) = insert (SStr key) (set (given_keys ups))"
      using True p by (simp add: given_keys_def)
    obtain s' ks where r: "batchUpdate_loop ups s1 (set_add (SStr key) acc) = Inr (s', ks)"
        "itemSubscribers s' = itemSubscribers s1"
        "itemSubscriberPaths s' = itemSubscriberPaths s1"
        "sync_events (trace s') = sync_events (trace s1)"
        "dom (map_of (smap s')) = dom (map_of (smap s1))"
        "distinct (set_add (SStr key) acc) \<longrightarrow> distinct ks"
        "set ks = set (set_add (SStr key) acc) \<union> set (given_keys ups)"
      using Cons.IH [of s1 "set_add (SStr key) acc"] by blast
    have "set ks = set acc \<union> set (given_keys (p # ups))"
      using r(7) keys by auto
    then show ?thesis
      unfolding step using r s1 by simp
  qed
qed

text \<open>
  What \<^const>\<open>batchUpdate\<close> with \<open>notify = true\<close> does: it returns normally and makes one
  call of a sync function, \<^const>\<open>syncItems\<close>, for the keys of the updates object whose
  value is not \<^verbatim>\<open>undefined\<close>, each once, whether \<^const>\<open>update\<close> found the key in the
  store or not; the key set of the store is unchanged.
\<close>

lemma batchUpdate_notifies_given_keys:
  "\<exists>s' ks cbs. batchUpdate updates True skip s = Inr s'
      \<and> sync_events (trace s') = sync_events (trace s) @ [Sync (ChItems (map Key ks)) cbs]
      \<and> distinct ks
      \<and> set ks = set (given_keys updates)
      \<and> dom (map_of (smap s')) = dom (map_of (smap s))"
proof -
  obtain s1 ks where l: "batchUpdate_loop updates s [] = Inr (s1, ks)"
      "sync_events (trace s1) = sync_events (trace s)"
      "dom (map_of (smap s1)) = dom (map_of (smap s))"
      "distinct ks"
      "set ks = set (given_keys updates)"
    using batchUpdate_loop_total [of updates s "[]"] by auto
  let ?s2 = "sendToDevtools ''BATCH_UPDATE'' skip s1"
  let ?cbs = "syncItems_loop (itemSubscribers ?s2) (itemSubscriberPaths ?s2) (map Key ks) []"
  have run: "batchUpdate updates True skip s = Inr (syncItems (map Key ks) ?s2)"
    using l(1) by (simp add: batchUpdate_def Let_def)
  have tr: "sync_events (trace (syncItems (map Key ks) ?s2))
            = sync_events (trace s) @ [Sync (ChItems (map Key ks)) ?cbs]"
    using l(2) by (simp add: syncItems_def)
  have dm: "dom (map_of (smap (syncItems (map Key ks) ?s2))) = dom (map_of (smap s))"
    using l(3) by (simp add: syncItems_def)
  show ?thesis
    using run tr dm l(4) l(5) by blast
qed

text \<open>
  C2. The one notification after \<^const>\<open>batchUpdate\<close> is to cover the keys that were
  in the store and were updated, and no key that is absent. With only \<^verbatim>\<open>a\<close> in the
  store, \<^verbatim>\<open>batchUpdate({a: {x: 1}, b: {y: 2}})\<close> notifies for the keys \<^verbatim>\<open>a\<close> and \<^verbatim>\<open>b\<close>:
  the loop adds every key to \<^verbatim>\<open>updatedKeys\<close> after calling \<^const>\<open>update\<close>, which for the
  absent \<^verbatim>\<open>b\<close> has returned at once. \<^const>\<open>update\<close> itself, called for \<^verbatim>\<open>b\<close> with
  \<open>notify = true\<close>, leaves the store as it is and notifies nobody.
\<close>

theorem batchUpdate_notifies_absent_key:
  "sync_events (trace (projr (batchUpdate [(''a'', UVal (VRef 1)), (''b'', UVal (VRef 2))]
      True False
      (create (no_props\<lparr>p_initialMap := Some [(SStr ''a'', VRef 0)]\<rparr>) False
         [JSObj False [], JSObj False [(''x'', VNum 1)], JSObj False [(''y'', VNum 2)]]))))
     = [Sync (ChItems [Key (SStr ''a''), Key (SStr ''b'')]) []]
   \<and> \<not> map_has (smap (create (no_props\<lparr>p_initialMap := Some [(SStr ''a'', VRef 0)]\<rparr>) False
         [JSObj False [], JSObj False [(''x'', VNum 1)], JSObj False [(''y'', VNum 2)]]))
        (SStr ''b'')
   \<and> update (Key (SStr ''b'')) (UVal (VRef 2)) True False
        (create (no_props\<lparr>p_initialMap := Some [(SStr ''a'', VRef 0)]\<rparr>) False
         [JSObj False [], JSObj False [(''x'', VNum 1)], JSObj False [(''y'', VNum 2)]])
     = Inr (create (no_props\<lparr>p_initialMap := Some [(SStr ''a'', VRef 0)]\<rparr>) False
         [JSObj False [], JSObj False [(''x'', VNum 1)], JSObj False [(''y'', VNum 2)]])"
  by code_simp

section \<open>Nested update\<close>

text \<open>
  C3. A nested \<^const>\<open>update\<close> is to leave every object of the previous value untouched.
  On \<^verbatim>\<open>{user: {profile: {age: 5}}}\<close> (the entry at address 0, \<^verbatim>\<open>profile\<close> at address 1),
  \<^verbatim>\<open>update(['user', 'profile', 'age'], n => n + 1)\<close> stores a clone of the entry
  (address 2), but the clone shares \<^verbatim>\<open>profile\<close>, and the assignment changes the
  object at address 1, which the previous entry still references.
\<close>

theorem update_mutates_shared_ancestor:
  "heap (projr (update (Path (SStr ''user'') [SStr ''profile'', SStr ''age''])
      (UFun increment) True False
      (create (no_props\<lparr>p_initialMap := Some [(SStr ''user'', VRef 0)]\<rparr>) False
         [JSObj False [(''profile'', VRef 1)], JSObj False [(''age'', VNum 5)]])))
     = [JSObj False [(''profile'', VRef 1)], JSObj False [(''age'', VNum 6)],
        JSObj False [(''profile'', VRef 1)]]
   \<and> smap (projr (update (Path (SStr ''user'') [SStr ''profile'', SStr ''age''])
      (UFun increment) True False
      (create (no_props\<lparr>p_initialMap := Some [(SStr ''user'', VRef 0)]\<rparr>) False
         [JSObj False [(''profile'', VRef 1)], JSObj False [(''age'', VNum 5)]])))
     = [(SStr ''user'', VRef 2)]"
  by code_simp

text \<open>
  For a path of two segments the assignment is on the clone itself: a value or a
  partial object as \<^verbatim>\<open>item\<close> leaves every object that existed before as it was.
\<close>

lemma update_two_segments_frame:
  assumes "update (Path k [l]) (UVal item) notify skip s = Inr s'"
    and "a < length (heap s)"
  shows "heap s' ! a = heap s ! a"
  using assms
  by (auto simp: update_def Let_def syncItem_def sendToDevtools_def pathToStringArray_def
        nth_append split: if_splits option.splits prod.splits sum.splits)

section \<open>The fallback scenario\<close>

text \<open>
  C6, as the claim states it, fails: after \<^verbatim>\<open>remove('user')\<close> both reads give
  \<^verbatim>\<open>undefined\<close>, since \<^const>\<open>getNestedFallbackValue\<close> skips the top-level key and looks
  \<^verbatim>\<open>name\<close> and \<^verbatim>\<open>roles\<close> up in the fallback value itself.
\<close>

theorem scenario_fallback_undefined:
  "fst (get (Path (SStr ''user'') [SStr ''name''])
      (remove (SStr ''user'') True False (scenario_store (VRef 2)))) = VUndef
   \<and> fst (get (Path (SStr ''user'') [SStr ''roles''])
      (remove (SStr ''user'') True False (scenario_store (VRef 2)))) = VUndef"
  by code_simp

text \<open>
  C6, amended. Before the removal the reads give \<^verbatim>\<open>'John'\<close> and the empty array of the
  entry. After it, with the fallback \<^verbatim>\<open>{user: {name: 'Anon', roles: ['guest']}}\<close> they
  give \<^verbatim>\<open>undefined\<close>; with the fallback \<^verbatim>\<open>{name: 'Anon', roles: ['guest']}\<close>, of the type
  of an entry as the constructor declares it, they give \<^verbatim>\<open>'Anon'\<close> and the array
  \<^verbatim>\<open>['guest']\<close>.
\<close>

theorem scenario_fallback_entry_shaped:
  "scenario_reads (scenario_store (VRef 2)) = (VStr ''John'', VRef 1, VUndef, VUndef)
   \<and> scenario_reads (scenario_store (VRef 3)) = (VStr ''John'', VRef 1, VStr ''Anon'', VRef 4)
   \<and> scenario_heap ! 1 = JSObj True []
   \<and> scenario_heap ! 4 = JSObj True [(''0'', VStr ''guest'')]"
  by code_simp

section \<open>Reading back what was set\<close>















lemma syncItem_facts [simp]:
  "smap (syncItem p s) = smap s"
  "heap (syncItem p s) = heap s"
  by (simp_all add: syncItem_def pathToStringArray_def Let_def split: option.splits)

lemma notify_set_facts [simp]:
  "smap (notify_set p n s) = smap s"
  "heap (notify_set p n s) = heap s"
  by (simp_all add: notify_set_def Let_def syncSize_def syncKeys_def)

lemma map_get_update [simp]: "map_get (AList.update k v m) k = v"
  by (simp add: map_get_def update_conv')






text \<open>
  Why the conditions on the path: where an object on the path is its own child, the
  assignment overwrites the link the read follows; \<^verbatim>\<open>set\<close> throws where the path
  leads through \<^verbatim>\<open>null\<close>; and assigning the \<^verbatim>\<open>length\<close> of an array is outside the
  model, while reading it gives the number of elements.
\<close>

lemma get_after_set_cycle: "fst (get (Path (SStr ''k'') [SStr ''b'', SStr ''b''])
     (projr (set_item (Path (SStr ''k'') [SStr ''b'', SStr ''b'']) (VNum 3) True
        (create (no_props\<lparr>p_initialMap := Some [(SStr ''k'', VRef 0)]\<rparr>) False
           [JSObj False [(''b'', VRef 0)]])))) = VUndef"
  by code_simp

lemma set_item_through_null: "set_item (Path (SStr ''k'') [SStr ''b'']) (VNum 3) True
        (create (no_props\<lparr>p_initialMap := Some [(SStr ''k'', VNull)]\<rparr>) False []) = Inl TypeError"
  by code_simp

lemma set_item_array_length:
  "set_item (Path (SStr ''k'') [SStr ''length'']) (VStr ''3'') True
     (create (no_props\<lparr>p_initialMap := Some [(SStr ''k'', VRef 0)]\<rparr>) False [JSObj True []])
   = Inl Unmodelled"
  "fst (get (Path (SStr ''k'') [SStr ''length''])
     (create (no_props\<lparr>p_initialMap := Some [(SStr ''k'', VRef 0)]\<rparr>) False
        [JSObj True [(''0'', VNum 7), (''1'', VNum 8)]])) = VNum 2"
  by code_simp+

section \<open>Debug mirror: jumping to a state\<close>

lemma update_fresh_key:
  "k \<notin> fst ` set al \<Longrightarrow> AList.update k v al = al @ [(k, v)]"
  by (induction al) auto

lemma fold_update_fresh:
  assumes "distinct (map (\<lambda>e. f (fst e)) es)"
    and "(\<lambda>e. f (fst e)) ` set es \<inter> fst ` set acc = {}"
  shows "fold (\<lambda>(k, v). AList.update (f k) v) es acc = acc @ map (\<lambda>(k, x). (f k, x)) es"
  using assms
proof (induction es arbitrary: acc)
  case Nil
  then show ?case by simp
next
  case (Cons e es)
  obtain k v where e: "e = (k, v)" by (cases e)
  have fresh: "f k \<notin> fst ` set acc" using Cons.prems(2) e by auto
  have "(\<lambda>e. f (fst e)) ` set es \<inter> fst ` set (acc @ [(f k, v)]) = {}"
    using Cons.prems e by (auto simp: image_iff)
  then show ?case
    using Cons.IH [of "acc @ [(f k, v)]"] Cons.prems(1) e fresh
    by (simp add: update_fresh_key)
qed

lemma entries_of_object:
  assumes "distinct (map fst ps)"
  shows "fold (\<lambda>(key, v). AList.update (SStr key) v) ps [] = map (\<lambda>(k, x). (SStr k, x)) ps"
proof -
  have "distinct (map SStr (map fst ps))"
    using assms by (simp add: distinct_map inj_on_def)
  then have "distinct (map (\<lambda>e. SStr (fst e)) ps)"
    by (simp add: comp_def)
  then show ?thesis
    using fold_update_fresh [of SStr ps "[]"] by simp
qed

lemma str_key_roundtrip: "is_str_key k \<Longrightarrow> SStr (seg_str k) = k"
  by (cases k) simp_all

lemma obj_of_str_keyed:
  assumes "str_keyed m" "distinct (map fst m)"
  shows "obj_of_map m = map (\<lambda>(k, x). (seg_str k, x)) m"
proof -
  have inj: "inj_on seg_str (set (map fst m))"
  proof (rule inj_onI)
    fix x y assume "x \<in> set (map fst m)" "y \<in> set (map fst m)" "seg_str x = seg_str y"
    then show "x = y"
      using assms(1) str_key_roundtrip unfolding str_keyed_def list_all_iff by metis
  qed
  have "distinct (map seg_str (map fst m))"
    using assms(2) inj by (subst distinct_map) blast
  then have "distinct (map (\<lambda>e. seg_str (fst e)) m)"
    by (simp add: comp_def)
  then show ?thesis
    unfolding obj_of_map_def using fold_update_fresh [of seg_str m "[]"] by simp
qed

lemma map_get_str_keys:
  "map_get (map (\<lambda>(k, x). (SStr k, x)) ps) (SStr k') = map_get ps k'"
  by (induction ps) (auto simp: map_get_def)

lemma map_get_seg_str:
  "str_keyed m \<Longrightarrow> map_get (map (\<lambda>(k, x). (seg_str k, x)) m) k' = map_get m (SStr k')"
proof (induction m)
  case Nil
  then show ?case by (simp add: map_get_def)
next
  case (Cons e m)
  obtain k x where e: "e = (k, x)" by (cases e)
  have k: "is_str_key k" and rest: "str_keyed m"
    using Cons.prems e by (simp_all add: str_keyed_def)
  show ?case
  proof (cases k)
    case (SStr y)
    then show ?thesis using Cons.IH [OF rest] e by (simp add: map_get_def)
  next
    case (SNum n)
    then show ?thesis using k by simp
  qed
qed

lemma not_reset_commit:
  "p \<in> {''ROLLBACK'', ''JUMP_TO_STATE'', ''JUMP_TO_ACTION''} \<Longrightarrow>
     p \<noteq> ''RESET'' \<and> p \<noteq> ''COMMIT''"
  by auto

lemma handle_jump:
  assumes "is_jump message st"
  shows "handleDevToolsMessage parse message s =
     (if st = [] then s
      else (case parse st (heap s) of
              None \<Rightarrow> s\<lparr>trace := trace s @ [ConsoleError]\<rparr>
            | Some (newState, h1) \<Rightarrow>
                (case setMapFromObject newState False (s\<lparr>heap := h1\<rparr>) of
                   Inl e \<Rightarrow> s\<lparr>trace := trace s @ [ConsoleError]\<rparr>
                 | Inr s1 \<Rightarrow> syncMap s1)))"
proof -
  have t: "m_type message = ''DISPATCH''" and s: "m_state message = Some st"
    and p: "m_payload_type message \<in> {''ROLLBACK'', ''JUMP_TO_STATE'', ''JUMP_TO_ACTION''}"
    using assms unfolding is_jump_def by blast+
  have n: "m_payload_type message \<noteq> ''RESET''" "m_payload_type message \<noteq> ''COMMIT''"
    using not_reset_commit [OF p] by blast+
  show ?thesis
    unfolding handleDevToolsMessage_def
    by (simp only: t s p n if_True if_False option.case refl)
qed

lemma handle_malformed:
  assumes "is_jump message st" "parse st (heap s) = None"
  shows "handleDevToolsMessage parse message s
         = s\<lparr>trace := trace s @ (if st = [] then [] else [ConsoleError])\<rparr>"
  using assms(2) by (simp add: handle_jump [OF assms(1)])

lemma handle_nullish:
  assumes "is_jump message st" "parse st (heap s) = Some (v, h1)" "nullish v"
  shows "handleDevToolsMessage parse message s
         = s\<lparr>trace := trace s @ (if st = [] then [] else [ConsoleError])\<rparr>"
  using assms(2,3) by (simp add: handle_jump [OF assms(1)] setMapFromObject_def)

text \<open>The handler loads whatever object it is sent.\<close>

lemma handle_loads:
  assumes j: "is_jump message st" and ne: "st \<noteq> []"
    and p: "parse st (heap s) = Some (VRef a, h1)"
    and a: "a < length h1" and d: "distinct (map fst (props (h1 ! a)))"
  shows "smap (handleDevToolsMessage parse message s)
           = map (\<lambda>(k, x). (SStr k, x)) (props (h1 ! a))"
    and "heap (handleDevToolsMessage parse message s) = h1"
    and "itemSubscribers (handleDevToolsMessage parse message s) = itemSubscribers s"
proof -
  have r: "handleDevToolsMessage parse message s
           = syncMap (setMap (map (\<lambda>(k, x). (SStr k, x)) (props (h1 ! a))) False True
                        (s\<lparr>heap := h1\<rparr>))"
    using ne p a entries_of_object [OF d]
    by (simp add: handle_jump [OF j] setMapFromObject_def)
  show "smap (handleDevToolsMessage parse message s)
           = map (\<lambda>(k, x). (SStr k, x)) (props (h1 ! a))"
    and "heap (handleDevToolsMessage parse message s) = h1"
    and "itemSubscribers (handleDevToolsMessage parse message s) = itemSubscribers s"
    unfolding r by (simp_all add: syncMap_def setMap_def sendToDevtools_def Let_def)
qed

lemma handle_roundtrip:
  assumes j: "is_jump message st" and ne: "st \<noteq> []"
    and p: "parse st (heap s) = Some (v, h1)"
    and ser: "serializes h1 v (heap s) (smap s)"
    and sk: "str_keyed (smap s)"
    and dist: "distinct (map fst (smap s))"
  shows "same_state (heap (handleDevToolsMessage parse message s)) (heap s)
           (smap (handleDevToolsMessage parse message s)) (smap s)"
proof -
  obtain a where a: "v = VRef a" "a < length h1" "distinct (map fst (props (h1 ! a)))"
      "same_entries h1 (heap s) (props (h1 ! a)) (obj_of_map (smap s))"
    using ser by (auto simp: serializes_def split: jsval.splits)
  let ?ps = "props (h1 ! a)"
  let ?m = "smap s"
  let ?m' = "map (\<lambda>(k, x). (SStr k, x)) ?ps"
  have om: "obj_of_map ?m = map (\<lambda>(k, x). (seg_str k, x)) ?m"
    using obj_of_str_keyed [OF sk dist] .
  have keys_ps: "set (map fst ?ps) = seg_str ` fst ` set ?m"
    using a(4) unfolding same_entries_def om by (auto simp: case_prod_beta image_iff)
  have rt: "\<And>k. k \<in> fst ` set ?m \<Longrightarrow> SStr (seg_str k) = k"
    using sk str_key_roundtrip unfolding str_keyed_def list_all_iff by auto
  have "set (map fst ?m') = SStr ` set (map fst ?ps)"
    by (auto simp: case_prod_beta image_iff)
  also have "\<dots> = SStr ` seg_str ` fst ` set ?m"
    using keys_ps by simp
  also have "\<dots> = fst ` set ?m"
    using rt by (auto simp: image_iff) (metis fst_conv)+
  finally have keys: "set (map fst ?m') = set (map fst ?m)"
    by simp
  have vals: "\<forall>q \<in> set ?m'. same_data h1 (heap s) (snd q) (map_get ?m (fst q))"
  proof
    fix q assume "q \<in> set ?m'"
    then obtain k x where kx: "(k, x) \<in> set ?ps" "q = (SStr k, x)"
      by auto
    have "same_data h1 (heap s) x (map_get (obj_of_map ?m) k)"
      using a(4) kx(1) unfolding same_entries_def by auto
    then show "same_data h1 (heap s) (snd q) (map_get ?m (fst q))"
      unfolding om using kx(2) map_get_seg_str [OF sk] by simp
  qed
  have p': "parse st (heap s) = Some (VRef a, h1)"
    using p a(1) by simp
  have "smap (handleDevToolsMessage parse message s) = ?m'"
    and "heap (handleDevToolsMessage parse message s) = h1"
    using handle_loads(1,2) [where parse = parse and s = s and a = a and ?h1.0 = h1,
        OF j ne p' a(2) a(3)] by blast+
  then show ?thesis
    unfolding same_state_def same_entries_def using keys vals by simp
qed

text \<open>
  C8, amended. The handler is a total function of the message and the store: nothing
  it calls throws past its \<^verbatim>\<open>try\<close>. On a ROLLBACK, JUMP_TO_STATE or JUMP_TO_ACTION
  message whose state string \<^verbatim>\<open>JSON.parse\<close> rejects, the store is left as it was, but
  for the logged error. If the string parses to an object, the map after handling
  has the properties of that object as its entries, under string keys, whatever the
  state was before. So if every key of the store is a string and the string parses to
  the serialization of the current state, the map after handling has the same keys
  and the same data under each as before.
\<close>

theorem devtools_jump:
  assumes "is_jump message st"
  shows "(parse st (heap s) = None \<longrightarrow>
            handleDevToolsMessage parse message s
            = s\<lparr>trace := trace s @ (if st = [] then [] else [ConsoleError])\<rparr>)
         \<and> (st \<noteq> [] \<and> parse st (heap s) = Some (VRef a, h1) \<and> a < length h1
              \<and> distinct (map fst (props (h1 ! a))) \<longrightarrow>
            smap (handleDevToolsMessage parse message s)
              = map (\<lambda>(k, x). (SStr k, x)) (props (h1 ! a))
            \<and> heap (handleDevToolsMessage parse message s) = h1
            \<and> itemSubscribers (handleDevToolsMessage parse message s) = itemSubscribers s)
         \<and> (st \<noteq> [] \<and> parse st (heap s) = Some (v, h2)
              \<and> serializes h2 v (heap s) (smap s)
              \<and> str_keyed (smap s) \<and> distinct (map fst (smap s)) \<longrightarrow>
            same_state (heap (handleDevToolsMessage parse message s)) (heap s)
              (smap (handleDevToolsMessage parse message s)) (smap s))"
  using handle_malformed [OF assms] handle_loads [OF assms] handle_roundtrip [OF assms]
  by blast

text \<open>
  C8, as the claim states it, fails for a store with a number as key. The state
  \<^verbatim>\<open>{1 => 5}\<close> is sent as the object \<^verbatim>\<open>{"1": 5}\<close>; loading it back gives the key
  \<^verbatim>\<open>'1'\<close>, and \<^verbatim>\<open>get(1)\<close>, which was 5, is \<^verbatim>\<open>undefined\<close>.
\<close>

theorem devtools_jump_number_key:
  \<open>serializes [JSObj False [(''1'', VNum 5)]] (VRef 0) [] [(SNum 1, VNum 5)]
   \<and> parse_example ''{"1":5}''
        (heap (create (no_props\<lparr>p_initialMap := Some [(SNum 1, VNum 5)]\<rparr>) False []))
      = Some (VRef 0, [JSObj False [(''1'', VNum 5)]])
   \<and> fst (get (Key (SNum 1))
        (create (no_props\<lparr>p_initialMap := Some [(SNum 1, VNum 5)]\<rparr>) False [])) = VNum 5
   \<and> smap (handleDevToolsMessage parse_example (jump_to_state ''{"1":5}'')
        (create (no_props\<lparr>p_initialMap := Some [(SNum 1, VNum 5)]\<rparr>) False []))
      = [(SStr ''1'', VNum 5)]
   \<and> fst (get (Key (SNum 1))
        (handleDevToolsMessage parse_example (jump_to_state ''{"1":5}'')
           (create (no_props\<lparr>p_initialMap := Some [(SNum 1, VNum 5)]\<rparr>) False [])))
      = VUndef\<close>
proof -
  have s1: "seg_str (SNum (Suc 0)) = ''1''"
    by code_simp
  have ser: "serializes [JSObj False [(''1'', VNum 5)]] (VRef 0) [] [(SNum 1, VNum 5)]"
    by (simp add: serializes_def same_entries_def obj_of_map_def map_get_def s1
          same_data.intros del: seg_str.simps)
  have rest: \<open>parse_example ''{"1":5}''
        (heap (create (no_props\<lparr>p_initialMap := Some [(SNum 1, VNum 5)]\<rparr>) False []))
      = Some (VRef 0, [JSObj False [(''1'', VNum 5)]])
   \<and> fst (get (Key (SNum 1))
        (create (no_props\<lparr>p_initialMap := Some [(SNum 1, VNum 5)]\<rparr>) False [])) = VNum 5
   \<and> smap (handleDevToolsMessage parse_example (jump_to_state ''{"1":5}'')
        (create (no_props\<lparr>p_initialMap := Some [(SNum 1, VNum 5)]\<rparr>) False []))
      = [(SStr ''1'', VNum 5)]
   \<and> fst (get (Key (SNum 1))
        (handleDevToolsMessage parse_example (jump_to_state ''{"1":5}'')
           (create (no_props\<lparr>p_initialMap := Some [(SNum 1, VNum 5)]\<rparr>) False [])))
      = VUndef\<close>
    by code_simp
  show ?thesis using ser rest by blast
qed

theorem devtools_jump_witness:
  \<open>handleDevToolsMessage parse_example (jump_to_state ''{"a":'')
      (create (no_props\<lparr>p_initialMap := Some [(SStr ''a'', VNum 1)]\<rparr>) False [])
    = (create (no_props\<lparr>p_initialMap := Some [(SStr ''a'', VNum 1)]\<rparr>) False [])
        \<lparr>trace := [ConsoleError]\<rparr>
   \<and> smap (handleDevToolsMessage parse_example (jump_to_state ''{"a":1}'')
          (create (no_props\<lparr>p_initialMap := Some [(SStr ''a'', VNum 1)]\<rparr>) False []))
      = [(SStr ''a'', VNum 1)]
   \<and> same_state
       (heap (handleDevToolsMessage parse_example (jump_to_state ''{"a":1}'')
          (create (no_props\<lparr>p_initialMap := Some [(SStr ''a'', VNum 1)]\<rparr>) False [])))
       []
       (smap (handleDevToolsMessage parse_example (jump_to_state ''{"a":1}'')
          (create (no_props\<lparr>p_initialMap := Some [(SStr ''a'', VNum 1)]\<rparr>) False [])))
       [(SStr ''a'', VNum 1)]\<close>
proof -
  let ?s = "create (no_props\<lparr>p_initialMap := Some [(SStr ''a'', VNum 1)]\<rparr>) False []"
  let ?h = "[JSObj False [(''a'', VNum 1)]]"
  have hs: "heap ?s = []" "smap ?s = [(SStr ''a'', VNum 1)]" "trace ?s = []"
    by (simp_all add: create_def no_props_def Let_def)
  have j1: \<open>is_jump (jump_to_state ''{"a":'') ''{"a":''\<close>
    by (simp add: is_jump_def jump_to_state_def)
  have p1: \<open>parse_example ''{"a":'' (heap ?s) = None\<close>
    by (simp add: parse_example_def)
  have j2: \<open>is_jump (jump_to_state ''{"a":1}'') ''{"a":1}''\<close>
    by (simp add: is_jump_def jump_to_state_def)
  have ne: \<open>''{"a":1}'' \<noteq> []\<close>
    by simp
  have p2: \<open>parse_example ''{"a":1}'' (heap ?s) = Some (VRef 0, ?h)\<close>
    by (simp add: parse_example_def hs)
  have obj: "0 < length ?h" "distinct (map fst (props (?h ! 0)))"
    by simp_all
  have ser: "serializes ?h (VRef 0) (heap ?s) (smap ?s)"
    by (simp add: serializes_def same_entries_def obj_of_map_def map_get_def hs
          same_data.intros)
  have sk: "str_keyed (smap ?s)" and d: "distinct (map fst (smap ?s))"
    by (simp_all add: hs str_keyed_def)
  let ?r = \<open>handleDevToolsMessage parse_example (jump_to_state ''{"a":1}'') ?s\<close>
  have f1: \<open>handleDevToolsMessage parse_example (jump_to_state ''{"a":'') ?s
            = ?s\<lparr>trace := [ConsoleError]\<rparr>\<close>
    using devtools_jump [OF j1, of parse_example ?s] p1 hs(3) by simp
  have f2: "smap ?r = map (\<lambda>(k, x). (SStr k, x)) (props (?h ! 0))"
    using devtools_jump [OF j2, of parse_example ?s 0 ?h] ne p2 obj by blast
  have f3: "same_state (heap ?r) (heap ?s) (smap ?r) (smap ?s)"
    using devtools_jump [OF j2, of parse_example ?s _ _ "VRef 0" ?h] ne p2 ser sk d by blast
  have "smap ?r = [(SStr ''a'', VNum 1)]"
    using f2 by simp
  moreover have "same_state (heap ?r) [] (smap ?r) [(SStr ''a'', VNum 1)]"
    using f3 unfolding hs .
  ultimately show ?thesis
    using f1 by blast
qed

end
